theory Spec2Isabelle
  imports Complex_Main "HOL-Library.Log_Nat"
begin

section \<open>The retail store notebook: data and operations\<close>

text \<open>
  The notebook \<^verbatim>\<open>apps/retail_store.ipynb\<close> defines a stock-management Markov decision
  process. Python integers are modelled as \<^typ>\<open>int\<close> (as \<^typ>\<open>nat\<close> where the code uses them
  as array indices or as the bound of a \<^verbatim>\<open>range\<close>), numpy arrays as lists, and float64 values
  as \<^typ>\<open>real\<close>: arithmetic is exact, rounding is not modelled. The capacity \<^verbatim>\<open>M\<close> and the
  horizon \<^verbatim>\<open>T\<close> are natural numbers (with a negative value \<^verbatim>\<open>np.zeros\<close> has no array to
  create). The random generators are explicit arguments: every call of \<^verbatim>\<open>rd.random()\<close>
  takes the next element of a sequence of draws.
\<close>

datatype error = IndexError | UnboundLocalError

subsection \<open>Problem parameters (notebook globals)\<close>

record globals =
  M_g :: nat
  h_g :: real
  c_g :: real
  c0_g :: real
  p_g :: real
  pdem_g :: "real list"
  gamma_g :: real

subsection \<open>Demand distribution\<close>

text \<open>
  \<^verbatim>\<open>pdem = np.array([q*(1-q)**m for m in range(M+1)])\<close> followed by
  \<^verbatim>\<open>pdem[M] = pdem[M]+1-np.sum(pdem)\<close>.
\<close>

definition make_pdem :: "nat \<Rightarrow> real \<Rightarrow> real list" where
  "make_pdem M q =
     (let pdem = map (\<lambda>m. q * (1 - q) ^ m) [0..<M + 1]
      in pdem[M := pdem ! M + 1 - sum_list pdem])"

text \<open>\<^verbatim>\<open>np.cumsum\<close>: running sums, carried in an accumulator.\<close>

fun cumsum_from :: "real \<Rightarrow> real list \<Rightarrow> real list" where
  "cumsum_from acc [] = []"
| "cumsum_from acc (x # xs) = (acc + x) # cumsum_from (acc + x) xs"

definition cumsum :: "real list \<Rightarrow> real list" where
  "cumsum xs = cumsum_from 0 xs"

type_synonym rd_state = "nat \<Rightarrow> real"

text \<open>\<^verbatim>\<open>rd.random()\<close>: the next draw, and the generator advanced by one.\<close>

definition rd_random :: "rd_state \<Rightarrow> real \<times> rd_state" where
  "rd_random rng = (rng 0, (\<lambda>n. rng (Suc n)))"

text \<open>
  The loop \<^verbatim>\<open>while (u > cpdem[i]): i = i+1\<close>. Reading \<^verbatim>\<open>cpdem[i]\<close> past the end of the
  array raises \<^verbatim>\<open>IndexError\<close>.
\<close>

function SimuDemand_loop :: "real list \<Rightarrow> real \<Rightarrow> nat \<Rightarrow> error + nat" where
  "SimuDemand_loop cpdem u i =
     (if length cpdem \<le> i then Inl IndexError
      else if u > cpdem ! i then SimuDemand_loop cpdem u (i + 1)
      else Inr i)"
  by pat_completeness auto
termination
  by (relation "measure (\<lambda>(cpdem, u, i). length cpdem - i)") auto

declare SimuDemand_loop.simps [simp del]

definition SimuDemand :: "real list \<Rightarrow> rd_state \<Rightarrow> error + (nat \<times> rd_state)" where
  "SimuDemand pdem rng =
     (let cpdem = cumsum pdem;
          i = 0;
          (u, rng') = rd_random rng
      in case SimuDemand_loop cpdem u i of
           Inl e \<Rightarrow> Inl e
         | Inr i' \<Rightarrow> Inr (i', rng'))"

subsection \<open>Transition and reward of one week\<close>

definition nextstate :: "int \<Rightarrow> int \<Rightarrow> int \<Rightarrow> int \<Rightarrow> int" where
  "nextstate s a d M = max 0 (min M (s + a) - d)"

definition nextreward ::
  "int \<Rightarrow> int \<Rightarrow> int \<Rightarrow> int \<Rightarrow> real \<Rightarrow> real \<Rightarrow> real \<Rightarrow> real \<Rightarrow> real" where
  "nextreward s a d M c c0 h p =
     (let rew = - c * real_of_int a - h * real_of_int s
                + p * real_of_int (min M (min d (s + a)))
      in if a > 0 then rew - c0 else rew)"

subsection \<open>The environment class\<close>

type_synonym info = "(string \<times> string) list"

record env =
  Stock_Capacity :: nat
  Maintenance_Cost :: real
  Order_Cost :: real
  Delivery_Cost :: real
  Selling_Price :: real
  Demand_Distribution :: "real list"
  action_space :: nat
  observation_space :: nat
  curr_step :: int
  state :: int

text \<open>The constructor \<^verbatim>\<open>StoreManagement(FirstState)\<close>; it reads the globals.\<close>

definition StoreManagement :: "globals \<Rightarrow> int \<Rightarrow> env" where
  "StoreManagement g FirstState =
     \<lparr> Stock_Capacity = M_g g,
       Maintenance_Cost = h_g g,
       Order_Cost = c_g g,
       Delivery_Cost = c0_g g,
       Selling_Price = p_g g,
       Demand_Distribution = pdem_g g,
       action_space = M_g g + 1,
       observation_space = M_g g + 1,
       curr_step = - 1,
       state = FirstState \<rparr>"

text \<open>
  \<^verbatim>\<open>step(self, action)\<close> returns the 4-tuple of the source together with the updated
  object and generator.
\<close>

definition step ::
  "env \<Rightarrow> rd_state \<Rightarrow> int \<Rightarrow> error + ((int \<times> real \<times> bool \<times> info) \<times> env \<times> rd_state)" where
  "step self rng action =
     (let self1 = self\<lparr>curr_step := curr_step self + 1\<rparr>
      in case SimuDemand (Demand_Distribution self1) rng of
           Inl e \<Rightarrow> Inl e
         | Inr (Demand, rng') \<Rightarrow>
             (let reward = nextreward (state self1) action (int Demand)
                             (int (Stock_Capacity self1)) (Order_Cost self1)
                             (Delivery_Cost self1) (Maintenance_Cost self1)
                             (Selling_Price self1);
                  self2 = self1\<lparr>state := nextstate (state self1) action (int Demand)
                                            (int (Stock_Capacity self1))\<rparr>
              in Inr ((state self2, reward, False, []), self2, rng')))"

text \<open>\<^verbatim>\<open>reset(self, InitialStock)\<close> has no return statement: it returns \<^verbatim>\<open>None\<close>.\<close>

definition reset :: "env \<Rightarrow> int \<Rightarrow> unit \<times> env" where
  "reset self InitialStock =
     (let self1 = self\<lparr>curr_step := - 1\<rparr>;
          self2 = self1\<lparr>state := InitialStock\<rparr>
      in ((), self2))"

subsection \<open>Simulating a trajectory\<close>



subsection \<open>Transition and reward kernels\<close>

text \<open>Two- and three-dimensional arrays are nested lists; \<^verbatim>\<open>A[i,j] = v\<close> and \<^verbatim>\<open>A[i,j,k] = v\<close>:\<close>

definition set2 :: "'a list list \<Rightarrow> nat \<Rightarrow> nat \<Rightarrow> 'a \<Rightarrow> 'a list list" where
  "set2 A i j v = A[i := (A ! i)[j := v]]"

definition set3 :: "'a list list list \<Rightarrow> nat \<Rightarrow> nat \<Rightarrow> nat \<Rightarrow> 'a \<Rightarrow> 'a list list list" where
  "set3 A i j k v = A[i := set2 (A ! i) j k v]"

definition zeros1 :: "nat \<Rightarrow> real list" where
  "zeros1 n = replicate n 0"

definition zeros2 :: "nat \<Rightarrow> nat \<Rightarrow> real list list" where
  "zeros2 n m = replicate n (zeros1 m)"

definition zeros3 :: "nat \<Rightarrow> nat \<Rightarrow> nat \<Rightarrow> real list list list" where
  "zeros3 n m k = replicate n (zeros2 m k)"

text \<open>
  The body of the innermost loop of the kernel cell, for one triple \<^verbatim>\<open>(a, s, d)\<close>. The next
  state \<^verbatim>\<open>ns\<close> is a Python integer, non-negative by the outer \<^verbatim>\<open>max\<close>, used as an index.
\<close>

definition kernel_body ::
  "globals \<Rightarrow> nat \<Rightarrow> nat \<Rightarrow> nat \<Rightarrow> real list list list \<times> real list list
     \<Rightarrow> real list list list \<times> real list list" where
  "kernel_body g a s d KR =
     (let K = fst KR; avgR = snd KR;
          ns = max 0 (min (int (M_g g)) (int s + int a) - int d);
          reward = - c_g g * real a - h_g g * real s
                   + p_g g * real_of_int (min (int (M_g g)) (min (int d) (int s + int a)));
          reward = (if a > 0 then reward - c0_g g else reward)
      in (set3 K s (nat ns) a (K ! s ! nat ns ! a + pdem_g g ! d),
          set2 avgR s a (avgR ! s ! a + pdem_g g ! d * reward)))"

definition kernel :: "globals \<Rightarrow> real list list list \<times> real list list" where
  "kernel g =
     (let n = M_g g + 1
      in fold (\<lambda>a. fold (\<lambda>s. fold (\<lambda>d. kernel_body g a s d) [0..<n]) [0..<n]) [0..<n]
           (zeros3 n n n, zeros2 n n))"

text \<open>The globals \<^verbatim>\<open>K\<close> and \<^verbatim>\<open>avgR\<close> once the kernel cell has run.\<close>

definition K_tab :: "globals \<Rightarrow> real list list list" where
  "K_tab g = fst (kernel g)"

definition avgR_tab :: "globals \<Rightarrow> real list list" where
  "avgR_tab g = snd (kernel g)"

subsection \<open>Greedy improvement and value iteration\<close>

text \<open>
  \<^verbatim>\<open>np.argmax\<close> returns the first index at which the maximum is attained: a scan that
  replaces the best index only on a strictly larger entry. (On an empty array numpy raises;
  every row scanned here has \<^verbatim>\<open>M+1\<close> entries.)
\<close>

fun argmax_scan :: "real list \<Rightarrow> nat \<Rightarrow> nat \<Rightarrow> real \<Rightarrow> nat" where
  "argmax_scan [] i best bv = best"
| "argmax_scan (x # xs) i best bv =
     (if x > bv then argmax_scan xs (i + 1) i x else argmax_scan xs (i + 1) best bv)"

definition argmax :: "real list \<Rightarrow> nat" where
  "argmax xs = (case xs of [] \<Rightarrow> 0 | x # xs' \<Rightarrow> argmax_scan xs' 1 0 x)"

definition Q_entry :: "globals \<Rightarrow> real list \<Rightarrow> nat \<Rightarrow> nat \<Rightarrow> real" where
  "Q_entry g V s a =
     avgR_tab g ! s ! a
     + gamma_g g * sum_list (map (\<lambda>ns. K_tab g ! s ! ns ! a * V ! ns) [0..<M_g g + 1])"

definition Improve_body ::
  "globals \<Rightarrow> real list \<Rightarrow> nat \<Rightarrow> nat list \<times> real list \<times> real list list
     \<Rightarrow> nat list \<times> real list \<times> real list list" where
  "Improve_body g V s st =
     (let Pi = fst st; newV = fst (snd st); Q = snd (snd st);
          Q = fold (\<lambda>a Q. set2 Q s a (Q_entry g V s a)) [0..<M_g g + 1] Q;
          pi = argmax (Q ! s)
      in (Pi[s := pi], newV[s := Q ! s ! pi], Q))"

text \<open>
  \<^verbatim>\<open>Improve(V)\<close> reads \<^verbatim>\<open>V[ns]\<close> for every \<^verbatim>\<open>ns\<close> in \<^verbatim>\<open>range(M+1)\<close> already in its first
  pass, so a shorter \<^verbatim>\<open>V\<close> raises \<^verbatim>\<open>IndexError\<close>.
\<close>

definition Improve :: "globals \<Rightarrow> real list \<Rightarrow> error + (nat list \<times> real list)" where
  "Improve g V =
     (if length V < M_g g + 1 then Inl IndexError
      else
        (let n = M_g g + 1;
             st = fold (Improve_body g V) [0..<n] (replicate n 0, zeros1 n, zeros2 n n)
         in Inr (fst st, fst (snd st))))"

text \<open>\<^verbatim>\<open>np.linalg.norm\<close> of the difference of two vectors: the Euclidean norm.\<close>

definition vsub :: "real list \<Rightarrow> real list \<Rightarrow> real list" where
  "vsub xs ys = map2 (-) xs ys"

definition linalg_norm :: "real list \<Rightarrow> real" where
  "linalg_norm xs = sqrt (sum_list (map (\<lambda>x. x ^ 2) xs))"

text \<open>
  One pass of the \<^verbatim>\<open>while\<close> loop of \<^verbatim>\<open>ValueIteration\<close>, on the loop variables
  \<^verbatim>\<open>(V, Pi, newV, nIt)\<close>, and the loop itself, which has no iteration bound. The random
  start \<^verbatim>\<open>10*np.random.rand(M+1)\<close> is the argument \<^verbatim>\<open>newV0\<close>.
\<close>

definition ValueIteration_body ::
  "globals \<Rightarrow> real list \<times> nat list \<times> real list \<times> nat
     \<Rightarrow> error + (real list \<times> nat list \<times> real list \<times> nat)" where
  "ValueIteration_body g st =
     (let newV = fst (snd (snd st)); nIt = snd (snd (snd st));
          nIt = nIt + 1;
          V = newV
      in case Improve g V of
           Inl e \<Rightarrow> Inl e
         | Inr (Pi, newV') \<Rightarrow> Inr (V, Pi, newV', nIt))"

partial_function (option) ValueIteration_loop ::
  "globals \<Rightarrow> real \<Rightarrow> real list \<times> nat list \<times> real list \<times> nat
     \<Rightarrow> (error + (nat list \<times> real list \<times> nat)) option" where
  "ValueIteration_loop g epsilon st =
     (if linalg_norm (vsub (fst st) (fst (snd (snd st)))) > epsilon
      then (case ValueIteration_body g st of
              Inl e \<Rightarrow> Some (Inl e)
            | Inr st' \<Rightarrow> ValueIteration_loop g epsilon st')
      else Some (Inr (fst (snd st), fst (snd (snd st)), snd (snd (snd st)))))"

definition ValueIteration ::
  "globals \<Rightarrow> real list \<Rightarrow> real \<Rightarrow> (error + (nat list \<times> real list \<times> nat)) option" where
  "ValueIteration g newV0 epsilon =
     (let V = zeros1 (M_g g + 1);
          Pi = replicate (M_g g + 1) 0;
          newV = newV0;
          nIt = 0
      in ValueIteration_loop g epsilon (V, Pi, newV, nIt))"

subsection \<open>Q-learning\<close>

text \<open>
  The generator of \<^verbatim>\<open>np.random\<close> is a second sequence of draws; \<^verbatim>\<open>np.random.randint(n)\<close>
  reduces the next raw draw to \<open>{0, ..., n - 1}\<close>.
\<close>

type_synonym np_state = "nat \<Rightarrow> nat"

definition np_randint :: "nat \<Rightarrow> np_state \<Rightarrow> nat \<times> np_state" where
  "np_randint n rng = (rng 0 mod n, (\<lambda>k. rng (Suc k)))"

text \<open>
  An integer used as an index into an axis of length \<open>n\<close>: numpy counts a negative index
  from the end and raises \<^verbatim>\<open>IndexError\<close> outside \<open>[-n, n)\<close>.
\<close>

definition np_index :: "nat \<Rightarrow> int \<Rightarrow> error + nat" where
  "np_index n i =
     (if 0 \<le> i \<and> i < int n then Inr (nat i)
      else if - int n \<le> i \<and> i < 0 then Inr (nat (int n + i))
      else Inl IndexError)"

text \<open>Python's \<^verbatim>\<open>max\<close> of a non-empty row.\<close>

definition max_row :: "real list \<Rightarrow> real" where
  "max_row xs = (case xs of [] \<Rightarrow> 0 | x # xs' \<Rightarrow> fold max xs' x)"

record qlearning_state =
  Q_arr :: "real list list"
  N_arr :: "real list list"
  env_obj :: env
  rd_gen :: rd_state
  np_gen :: np_state

text \<open>The body of the inner loop of \<^verbatim>\<open>QLearning\<close>: one update of the table \<^verbatim>\<open>Q\<close>.\<close>

definition QLearning_update :: "globals \<Rightarrow> real \<Rightarrow> qlearning_state \<Rightarrow> error + qlearning_state" where
  "QLearning_update g epsilon st =
     (let S = state (env_obj st);
          (A0, np') = np_randint (M_g g + 1) (np_gen st);
          (u, rd') = rd_random (rd_gen st)
      in case np_index (M_g g + 1) S of
           Inl e \<Rightarrow> Inl e
         | Inr Si \<Rightarrow>
             (let A = (if u > epsilon then argmax (Q_arr st ! Si) else A0);
                  N = set2 (N_arr st) Si A (N_arr st ! Si ! A + 1)
              in case step (env_obj st) rd' (int A) of
                   Inl e \<Rightarrow> Inl e
                 | Inr ((nS, rew, x, y), env', rd'') \<Rightarrow>
                     (case np_index (M_g g + 1) nS of
                        Inl e \<Rightarrow> Inl e
                      | Inr nSi \<Rightarrow>
                          (let delta = rew + gamma_g g * max_row (Q_arr st ! nSi)
                                       - Q_arr st ! Si ! A;
                               alpha = 1 / sqrt (1 + N ! Si ! A);
                               Q = set2 (Q_arr st) Si A (Q_arr st ! Si ! A + alpha * delta)
                           in Inr \<lparr> Q_arr = Q, N_arr = N, env_obj = env',
                                    rd_gen = rd'', np_gen = np' \<rparr>))))"

text \<open>The inner loop \<^verbatim>\<open>for t in range(Landmarks[k]+1, Landmarks[k+1])\<close>, over the values of \<^verbatim>\<open>t\<close>.\<close>

fun QLearning_inner ::
  "globals \<Rightarrow> real \<Rightarrow> nat list \<Rightarrow> qlearning_state \<Rightarrow> error + qlearning_state" where
  "QLearning_inner g epsilon [] st = Inr st"
| "QLearning_inner g epsilon (t # ts) st =
     (case QLearning_update g epsilon st of
        Inl e \<Rightarrow> Inl e
      | Inr st' \<Rightarrow> QLearning_inner g epsilon ts st')"

text \<open>
  The outer loop \<^verbatim>\<open>for k in range(nbLands-1)\<close>. Besides the learner's state it carries the
  variable \<^verbatim>\<open>Pi\<close>, unbound before the first pass, and the lines printed so far: the count
  \<^verbatim>\<open>Landmarks[k+1]\<close> announced as "After T= ... iterations" and the policy shown with it.
\<close>

fun QLearning_outer ::
  "globals \<Rightarrow> real \<Rightarrow> nat list \<Rightarrow> nat list
     \<Rightarrow> qlearning_state \<times> nat list option \<times> (nat \<times> nat list) list
     \<Rightarrow> error + (qlearning_state \<times> nat list option \<times> (nat \<times> nat list) list)" where
  "QLearning_outer g epsilon Landmarks [] acc = Inr acc"
| "QLearning_outer g epsilon Landmarks (k # ks) (st, Pi, printed) =
     (case QLearning_inner g epsilon [Landmarks ! k + 1..<Landmarks ! (k + 1)] st of
        Inl e \<Rightarrow> Inl e
      | Inr st' \<Rightarrow>
          (let Pi' = map (\<lambda>s. argmax (Q_arr st' ! s)) [0..<M_g g + 1]
           in QLearning_outer g epsilon Landmarks ks
                (st', Some Pi', printed @ [(Landmarks ! (k + 1), Pi')])))"

text \<open>
  \<^verbatim>\<open>QLearning(Landmarks)\<close>. The random table \<^verbatim>\<open>10*np.random.rand(1+M, 1+M)\<close> is the argument
  \<^verbatim>\<open>Q0\<close>. \<^verbatim>\<open>QLearning_run\<close> gives the final state of all local variables and the printed
  lines; the function itself returns \<^verbatim>\<open>Pi, Q\<close>, and fails at \<^verbatim>\<open>return\<close> when the outer
  loop has not run and \<^verbatim>\<open>Pi\<close> is unbound.
\<close>

definition QLearning_run ::
  "globals \<Rightarrow> real list list \<Rightarrow> rd_state \<Rightarrow> np_state \<Rightarrow> nat list
     \<Rightarrow> error + (qlearning_state \<times> nat list option \<times> (nat \<times> nat list) list)" where
  "QLearning_run g Q0 rd np Landmarks =
     (let nbLands = length Landmarks;
          Q = Q0;
          N = zeros2 (M_g g + 1) (M_g g + 1);
          epsilon = 3/10;
          (s0, np') = np_randint (M_g g + 1) np;
          env = StoreManagement g (int s0)
      in QLearning_outer g epsilon Landmarks [0..<nbLands - 1]
           (\<lparr> Q_arr = Q, N_arr = N, env_obj = env, rd_gen = rd, np_gen = np' \<rparr>, None, []))"

definition QLearning ::
  "globals \<Rightarrow> real list list \<Rightarrow> rd_state \<Rightarrow> np_state \<Rightarrow> nat list
     \<Rightarrow> error + (nat list \<times> real list list)" where
  "QLearning g Q0 rd np Landmarks =
     (case QLearning_run g Q0 rd np Landmarks of
        Inl e \<Rightarrow> Inl e
      | Inr (st, None, printed) \<Rightarrow> Inl UnboundLocalError
      | Inr (st, Some Pi, printed) \<Rightarrow> Inr (Pi, Q_arr st))"

subsection \<open>Float64 arithmetic\<close>

text \<open>
  The definitions above compute over the reals. Where rounding decides what the code does,
  the computation is repeated in float64: a float is a real of the form \<open>m * 2 ^ e\<close> with
  \<open>\<bar>m\<bar> < 2 ^ 53\<close>, and an arithmetic operation returns the float nearest to the exact
  result, a tie going to the even \<open>m\<close>. \<open>expo x\<close> is the exponent of the leading bit of a
  positive \<open>x\<close>. The range of the exponent is not bounded: overflow and subnormal numbers,
  which need magnitudes beyond \<open>2 ^ 1024\<close> or below \<open>2 ^ - 1022\<close>, are not modelled.
\<close>

definition pow2 :: "int \<Rightarrow> real" where
  "pow2 e = (if 0 \<le> e then 2 ^ nat e else 1 / 2 ^ nat (- e))"

definition expo :: "real \<Rightarrow> int" where
  "expo x = (if 1 \<le> x then bitlen \<lfloor>x\<rfloor> - 1 else - bitlen (\<lceil>1 / x\<rceil> - 1))"

definition round_even :: "real \<Rightarrow> int" where
  "round_even y =
     (let n = \<lfloor>y\<rfloor>
      in if y - of_int n < 1/2 then n
         else if y - of_int n > 1/2 then n + 1
         else if even n then n else n + 1)"

definition f64 :: "real \<Rightarrow> real" where
  "f64 x =
     (if x = 0 then 0
      else (let q = pow2 (expo \<bar>x\<bar> - 52) in of_int (round_even (x / q)) * q))"

definition fadd :: "real \<Rightarrow> real \<Rightarrow> real" where
  "fadd x y = f64 (x + y)"

text \<open>\<^verbatim>\<open>np.cumsum\<close> on a float64 array: every running sum is rounded.\<close>

fun cumsum_f64_from :: "real \<Rightarrow> real list \<Rightarrow> real list" where
  "cumsum_f64_from acc [] = []"
| "cumsum_f64_from acc (x # xs) = fadd acc x # cumsum_f64_from (fadd acc x) xs"

definition cumsum_f64 :: "real list \<Rightarrow> real list" where
  "cumsum_f64 xs = cumsum_f64_from 0 xs"

text \<open>\<^verbatim>\<open>SimuDemand\<close> with the running sums of float64.\<close>

definition SimuDemand_f64 :: "real list \<Rightarrow> rd_state \<Rightarrow> error + (nat \<times> rd_state)" where
  "SimuDemand_f64 pdem rng =
     (let cpdem = cumsum_f64 pdem;
          i = 0;
          (u, rng') = rd_random rng
      in case SimuDemand_loop cpdem u i of
           Inl e \<Rightarrow> Inl e
         | Inr i' \<Rightarrow> Inr (i', rng'))"

subsection \<open>Notions used in the proofs\<close>

text \<open>The shape of a two- and of a three-dimensional array.\<close>

definition shape2 :: "nat \<Rightarrow> nat \<Rightarrow> 'a list list \<Rightarrow> bool" where
  "shape2 n m A \<longleftrightarrow> length A = n \<and> (\<forall>i<n. length (A ! i) = m)"

definition shape3 :: "nat \<Rightarrow> nat \<Rightarrow> nat \<Rightarrow> 'a list list list \<Rightarrow> bool" where
  "shape3 n m k A \<longleftrightarrow> length A = n \<and> (\<forall>i<n. shape2 m k (A ! i))"

text \<open>
  The index the kernel cell computes for \<open>(s, a, d)\<close>, and the demand mass that the cell adds
  up in \<open>K[s, ns, a]\<close>.
\<close>

definition ns_of :: "globals \<Rightarrow> nat \<Rightarrow> nat \<Rightarrow> nat \<Rightarrow> nat" where
  "ns_of g s a d = nat (max 0 (min (int (M_g g)) (int s + int a) - int d))"

definition mass :: "globals \<Rightarrow> nat \<Rightarrow> nat \<Rightarrow> nat \<Rightarrow> real" where
  "mass g s a ns =
     sum_list (map (\<lambda>d. if ns_of g s a d = ns then pdem_g g ! d else 0) [0..<M_g g + 1])"

text \<open>Row \<open>s\<close> of the table \<open>Q\<close> that \<open>Improve\<close> fills.\<close>

definition Q_row :: "globals \<Rightarrow> real list \<Rightarrow> nat \<Rightarrow> real list" where
  "Q_row g V s = map (Q_entry g V s) [0..<M_g g + 1]"


subsection \<open>Example inputs\<close>

text \<open>
  A small instance used to run the definitions: capacity 2, the notebook's costs, and a
  demand distribution on \<open>{0, 1, 2}\<close>.
\<close>

definition small_globals :: globals where
  "small_globals =
     \<lparr> M_g = 2, h_g = 3/10, c_g = 1/2, c0_g = 3/10, p_g = 1,
       pdem_g = [1/4, 1/4, 1/2], gamma_g = 97/100 \<rparr>"

definition const_draws :: "real \<Rightarrow> rd_state" where
  "const_draws u = (\<lambda>n. u)"

definition alt_draws :: rd_state where
  "alt_draws = (\<lambda>n. if even n then 3/10 else 9/10)"


text \<open>
  A run of \<open>QLearning\<close> on the small instance: the raw draws of \<open>np.random\<close> are
  \<open>1, 2, 3, ...\<close>, the table \<open>Q\<close> starts at zero, and \<open>ql0\<close>, \<open>ql1\<close>, \<open>ql2\<close> are
  the learner's state before the first update, after it, and after the second.
\<close>

definition succ_draws :: np_state where
  "succ_draws = (\<lambda>n. n + 1)"

definition ql0 :: qlearning_state where
  "ql0 = \<lparr> Q_arr = zeros2 3 3, N_arr = zeros2 3 3, env_obj = StoreManagement small_globals 1,
          rd_gen = alt_draws, np_gen = (\<lambda>k. succ_draws (Suc k)) \<rparr>"

definition ql1 :: qlearning_state where
  "ql1 = \<lparr> Q_arr = [[0, 0, 0], [0, 0, (2/5) / sqrt 2], [0, 0, 0]],
          N_arr = [[0, 0, 0], [0, 0, 1], [0, 0, 0]],
          env_obj = (StoreManagement small_globals 1)\<lparr>curr_step := 0, state := 0\<rparr>,
          rd_gen = (\<lambda>n. alt_draws (Suc (Suc n))),
          np_gen = (\<lambda>k. succ_draws (Suc (Suc k))) \<rparr>"


definition ql2 :: qlearning_state where
  "ql2 = \<lparr> Q_arr = [[0, 0, 0], [0, 0, (2/5) / sqrt 2], [0, 0, 0]],
          N_arr = [[1, 0, 0], [0, 0, 1], [0, 0, 0]],
          env_obj = (StoreManagement small_globals 1)\<lparr>curr_step := 1, state := 0\<rparr>,
          rd_gen = (\<lambda>n. alt_draws (Suc (Suc (Suc (Suc n))))),
          np_gen = (\<lambda>k. succ_draws (Suc (Suc (Suc k)))) \<rparr>"

text \<open>
  A demand array of ten floats, none negative, whose exact sum is 1: three quarters, eight
  times \<open>2 ^ - 55\<close>, and \<open>1/4 - 2 ^ - 52\<close>.
\<close>

definition dyadic_pdem :: "real list" where
  "dyadic_pdem = 3/4 # replicate 8 (1 / 2 ^ 55) @ [1/4 - 1 / 2 ^ 52]"

section \<open>Properties\<close>

subsection \<open>Demand distribution and sampler\<close>

lemma sum_list_update_real:
  fixes xs :: "real list"
  shows "k < length xs \<Longrightarrow> sum_list (xs[k := v]) = sum_list xs - xs ! k + v"
  by (induction xs arbitrary: k) (auto split: nat.splits)

lemma geometric_partial_sum:
  fixes q :: real
  shows "sum_list (map (\<lambda>m. q * (1 - q) ^ m) [0..<n]) = 1 - (1 - q) ^ n"
  by (induction n) (simp_all add: algebra_simps)

text \<open>
  In exact arithmetic: for \<open>0 < q < 1\<close> the demand array has length \<open>M + 1\<close>, its entry \<open>m < M\<close> is
  \<open>q * (1 - q) ^ m\<close>, its last entry is what remains of the mass after the entries before
  it, the array sums to 1, and no entry is negative.
\<close>

lemma make_pdem_exact:
  assumes "0 < q" and "q < 1"
  shows "length (make_pdem M q) = M + 1
         \<and> (\<forall>m<M. make_pdem M q ! m = q * (1 - q) ^ m)
         \<and> make_pdem M q ! M = 1 - sum_list (map (\<lambda>m. q * (1 - q) ^ m) [0..<M])
         \<and> sum_list (make_pdem M q) = 1
         \<and> (\<forall>x\<in>set (make_pdem M q). 0 \<le> x)"
proof -
  let ?f = "\<lambda>m. q * (1 - q) ^ m"
  let ?pd = "map ?f [0..<M + 1]"
  have def: "make_pdem M q = ?pd[M := ?pd ! M + 1 - sum_list ?pd]"
    by (simp add: make_pdem_def Let_def)
  have len: "length (make_pdem M q) = M + 1"
    by (simp add: def)
  have front: "\<forall>m<M. make_pdem M q ! m = ?f m"
  proof (intro allI impI)
    fix m assume "m < M"
    then show "make_pdem M q ! m = ?f m"
      unfolding def by (simp add: nth_append del: upt_Suc)
  qed
  have pdM: "?pd ! M = ?f M"
    using nth_map_upt [of M "M + 1" 0 ?f] by simp
  have "make_pdem M q ! M = ?pd ! M + 1 - sum_list ?pd"
    unfolding def by simp
  also have "\<dots> = 1 - sum_list (map ?f [0..<M])"
    using pdM by simp
  finally have last: "make_pdem M q ! M = 1 - sum_list (map ?f [0..<M])" .
  have total: "sum_list (make_pdem M q) = 1"
    unfolding def by (subst sum_list_update_real) simp_all
  have lastval: "make_pdem M q ! M = (1 - q) ^ M"
    using last by (simp add: geometric_partial_sum)
  have nonneg: "\<forall>x\<in>set (make_pdem M q). 0 \<le> x"
  proof
    fix x assume "x \<in> set (make_pdem M q)"
    then obtain i where i: "i < M + 1" "x = make_pdem M q ! i"
      using len by (metis in_set_conv_nth)
    show "0 \<le> x"
    proof (cases "i < M")
      case True
      then show ?thesis using front i assms by simp
    next
      case False
      then have "i = M" using i by simp
      then show ?thesis using lastval i assms by simp
    qed
  qed
  show ?thesis using len front last total nonneg by blast
qed

lemma make_pdem_exact_example:
  "(0::real) < 1/2 \<and> (1/2::real) < 1 \<and> make_pdem 2 (1/2) = [1/2, 1/4, 1/4]
   \<and> sum_list (make_pdem 2 (1/2)) = 1"
proof -
  have e: "make_pdem 2 (1/2) = [1/2, 1/4, 1/4]"
    by (simp add: make_pdem_def Let_def upt_rec power2_eq_square)
  show ?thesis using make_pdem_exact [of "1/2" 2] e by simp
qed

lemma length_cumsum_from: "length (cumsum_from acc xs) = length xs"
  by (induction xs arbitrary: acc) simp_all

lemma cumsum_from_nth:
  "i < length xs \<Longrightarrow> cumsum_from acc xs ! i = acc + sum_list (take (Suc i) xs)"
proof (induction xs arbitrary: acc i)
  case Nil
  then show ?case by simp
next
  case (Cons x xs)
  then show ?case by (cases i) simp_all
qed

lemma cumsum_nth: "i < length xs \<Longrightarrow> cumsum xs ! i = sum_list (take (Suc i) xs)"
  by (simp add: cumsum_def cumsum_from_nth)

lemma SimuDemand_loop_finds:
  assumes "i \<le> j" and "j < length cp" and "u \<le> cp ! j"
  shows "\<exists>k. SimuDemand_loop cp u i = Inr k \<and> i \<le> k \<and> k \<le> j \<and> u \<le> cp ! k
             \<and> (\<forall>l. i \<le> l \<and> l < k \<longrightarrow> cp ! l < u)"
  using assms
proof (induction "j - i" arbitrary: i)
  case 0
  then have "i = j" by simp
  with 0 show ?case
    by (subst SimuDemand_loop.simps) auto
next
  case (Suc n)
  then have ilt: "i < j" by simp
  show ?case
  proof (cases "u > cp ! i")
    case False
    with Suc.prems show ?thesis
      by (subst SimuDemand_loop.simps) auto
  next
    case True
    have "n = j - (i + 1)" using Suc.hyps(2) by simp
    from Suc.hyps(1) [OF this] ilt Suc.prems
    obtain k where k: "SimuDemand_loop cp u (i + 1) = Inr k" "i + 1 \<le> k" "k \<le> j"
        "u \<le> cp ! k" "\<forall>l. i + 1 \<le> l \<and> l < k \<longrightarrow> cp ! l < u"
      by auto
    have unf: "SimuDemand_loop cp u i = SimuDemand_loop cp u (i + 1)"
      using True ilt Suc.prems by (subst SimuDemand_loop.simps) simp
    have "\<forall>l. i \<le> l \<and> l < k \<longrightarrow> cp ! l < u"
    proof (intro allI impI)
      fix l assume l: "i \<le> l \<and> l < k"
      show "cp ! l < u"
      proof (cases "l = i")
        case True
        then show ?thesis using \<open>u > cp ! i\<close> by simp
      next
        case False
        then have "i + 1 \<le> l \<and> l < k" using l by simp
        then show ?thesis using k(5) by blast
      qed
    qed
    then show ?thesis using k unf by auto
  qed
qed

lemma SimuDemand_least:
  assumes "length pdem = M + 1" and "sum_list pdem = 1" and "rng 0 < 1"
  shows "\<exists>i. SimuDemand pdem rng = Inr (i, (\<lambda>n. rng (Suc n)))
             \<and> i \<le> M
             \<and> rng 0 \<le> sum_list (take (Suc i) pdem)
             \<and> (\<forall>j<i. sum_list (take (Suc j) pdem) < rng 0)"
proof -
  let ?cp = "cumsum pdem"
  have len: "length ?cp = M + 1"
    using assms(1) by (simp add: cumsum_def length_cumsum_from)
  have "?cp ! M = sum_list (take (Suc M) pdem)"
    using assms(1) by (simp add: cumsum_nth)
  then have top: "rng 0 \<le> ?cp ! M"
    using assms by simp
  from SimuDemand_loop_finds [of 0 M ?cp "rng 0"] len top
  obtain k where k: "SimuDemand_loop ?cp (rng 0) 0 = Inr k" "k \<le> M" "rng 0 \<le> ?cp ! k"
      "\<forall>l. l < k \<longrightarrow> ?cp ! l < rng 0"
    by auto
  have res: "SimuDemand pdem rng = Inr (k, (\<lambda>n. rng (Suc n)))"
    using k(1) by (simp add: SimuDemand_def rd_random_def Let_def)
  have reach: "rng 0 \<le> sum_list (take (Suc k) pdem)"
    using k(2,3) assms(1) by (simp add: cumsum_nth)
  have below: "\<forall>j<k. sum_list (take (Suc j) pdem) < rng 0"
  proof (intro allI impI)
    fix j assume "j < k"
    then have "?cp ! j < rng 0" and "j < length pdem"
      using k(2,4) assms(1) by auto
    then show "sum_list (take (Suc j) pdem) < rng 0"
      by (simp add: cumsum_nth)
  qed
  show ?thesis using res k(2) reach below by blast
qed

text \<open>
  In exact arithmetic: for a demand array of length \<open>M + 1\<close> that sums to 1 and a draw \<open>u < 1\<close>, the sampler
  returns; the index returned is at most \<open>M\<close>, its cumulative mass reaches \<open>u\<close>, and the
  cumulative mass of every smaller index is below \<open>u\<close>. The scan never reads past the end.
\<close>

lemma SimuDemand_least_example:
  "length [1/4, 1/4, 1/2 :: real] = 2 + 1 \<and> sum_list [1/4, 1/4, 1/2 :: real] = 1
   \<and> (\<lambda>n. 3/10 :: real) 0 < 1
   \<and> SimuDemand [1/4, 1/4, 1/2] (\<lambda>n. 3/10) = Inr (1, (\<lambda>n. 3/10))"
proof -
  have e: "SimuDemand [1/4, 1/4, 1/2] (\<lambda>n. 3/10) = Inr (1, (\<lambda>n. 3/10))"
    by (simp add: SimuDemand_def cumsum_def rd_random_def SimuDemand_loop.simps)
  show ?thesis
    using SimuDemand_least [of "[1/4, 1/4, 1/2]" 2 "\<lambda>n. 3/10"] e by simp
qed

subsection \<open>The environment\<close>

lemma SimuDemand_small:
  "SimuDemand [1/4, 1/4, 1/2] (const_draws (3/10)) = Inr (1, const_draws (3/10))"
  by (simp add: SimuDemand_def cumsum_def rd_random_def const_draws_def SimuDemand_loop.simps)

text \<open>
  C1: when the sampler hands \<open>step\<close> the demand \<open>d\<close>, the call returns the next stock
  \<open>max 0 (min M (s + a) - d)\<close>, the reward \<open>- c * a - h * s + p * min M d (s + a)\<close> less \<open>c0\<close>
  exactly when \<open>a > 0\<close>, the flag \<open>False\<close> and an empty dictionary; the stored state becomes
  the next stock.
\<close>

theorem step_returns:
  assumes "SimuDemand (Demand_Distribution self) rng = Inr (d, rng')"
  shows "step self rng a =
           Inr ((max 0 (min (int (Stock_Capacity self)) (state self + a) - int d),
                 - Order_Cost self * real_of_int a
                   - Maintenance_Cost self * real_of_int (state self)
                   + Selling_Price self
                     * real_of_int (min (int (Stock_Capacity self)) (min (int d) (state self + a)))
                   - (if a > 0 then Delivery_Cost self else 0),
                 False, []),
                self\<lparr>curr_step := curr_step self + 1,
                     state := max 0 (min (int (Stock_Capacity self)) (state self + a) - int d)\<rparr>,
                rng')"
  using assms by (simp add: step_def nextreward_def nextstate_def Let_def)

theorem step_returns_witness:
  "SimuDemand (Demand_Distribution (StoreManagement small_globals 1)) (const_draws (3/10))
     = Inr (1, const_draws (3/10))
   \<and> step (StoreManagement small_globals 1) (const_draws (3/10)) 2 =
       Inr ((1, - 3/5, False, []),
            (StoreManagement small_globals 1)\<lparr>curr_step := 0, state := 1\<rparr>,
            const_draws (3/10))"
proof -
  have h: "SimuDemand (Demand_Distribution (StoreManagement small_globals 1))
             (const_draws (3/10)) = Inr (1, const_draws (3/10))"
    by (simp add: StoreManagement_def small_globals_def SimuDemand_small)
  show ?thesis
    using h step_returns [OF h, of 2]
    by (simp add: StoreManagement_def small_globals_def)
qed

text \<open>
  C6: for a stock and a demand in \<open>[0, M]\<close> and any integer action, \<open>nextstate\<close> lies in
  \<open>[0, M]\<close>; and whenever the sampler returns, \<open>step\<close> returns for every action, in range
  or not, and leaves a stock in \<open>[0, M]\<close>.
\<close>

theorem stock_stays_in_range:
  "(0 \<le> s \<and> s \<le> M \<and> 0 \<le> d \<and> d \<le> M
      \<longrightarrow> 0 \<le> nextstate s a d M \<and> nextstate s a d M \<le> M)
   \<and> (SimuDemand (Demand_Distribution self) rng = Inr (dem, rng')
      \<longrightarrow> (\<exists>out self'. step self rng a = Inr (out, self', rng')
             \<and> state self' = nextstate (state self) a (int dem) (int (Stock_Capacity self))
             \<and> Stock_Capacity self' = Stock_Capacity self
             \<and> 0 \<le> state self' \<and> state self' \<le> int (Stock_Capacity self')))"
  by (auto simp add: step_def nextstate_def Let_def)

theorem stock_stays_in_range_witness:
  "(0::int) \<le> 1 \<and> (1::int) \<le> 2 \<and> nextstate 1 100 1 2 = 1 \<and> nextstate 1 (- 5) 1 2 = 0
   \<and> SimuDemand (Demand_Distribution (StoreManagement small_globals 1)) (const_draws (3/10))
       = Inr (1, const_draws (3/10))
   \<and> (\<exists>out self'. step (StoreManagement small_globals 1) (const_draws (3/10)) 100
                     = Inr (out, self', const_draws (3/10))
        \<and> state self' = 1)"
proof -
  have h: "SimuDemand (Demand_Distribution (StoreManagement small_globals 1))
             (const_draws (3/10)) = Inr (1, const_draws (3/10))"
    by (simp add: StoreManagement_def small_globals_def SimuDemand_small)
  have n: "nextstate 1 100 1 2 = 1" "nextstate 1 (- 5) 1 2 = 0"
    by (simp_all add: nextstate_def)
  have c: "int (Stock_Capacity (StoreManagement small_globals 1)) = 2"
          "state (StoreManagement small_globals 1) = 1"
    by (simp_all add: StoreManagement_def small_globals_def)
  show ?thesis
    using h n c
      stock_stays_in_range [of 1 2 1 100 "StoreManagement small_globals 1"
                               "const_draws (3/10)" 1 "const_draws (3/10)"]
    by auto
qed

text \<open>
  C9, as the code has it: \<open>reset\<close> stores the given stock, sets the step counter to \<open>- 1\<close>
  (the value the constructor gives it, so that the first \<open>step\<close> brings it to 0), and returns
  nothing.
\<close>

theorem reset_sets_stock_and_counter:
  "reset self InitialStock = ((), self\<lparr>curr_step := - 1, state := InitialStock\<rparr>)
   \<and> state (snd (reset self InitialStock)) = InitialStock
   \<and> curr_step (snd (reset self InitialStock)) = - 1
   \<and> curr_step (snd (reset self InitialStock)) = curr_step (StoreManagement g InitialStock)"
  by (simp add: reset_def StoreManagement_def)

text \<open>The step counter after \<open>reset\<close> is not zero.\<close>

theorem reset_counter_counterexample:
  "curr_step (snd (reset (StoreManagement small_globals 3) 5)) \<noteq> 0"
  by (simp add: reset_def)

subsection \<open>The transition kernel\<close>

lemma set2_nth:
  "shape2 n m A \<Longrightarrow> i < n \<Longrightarrow> j < m \<Longrightarrow> i' < n \<Longrightarrow> j' < m \<Longrightarrow>
   set2 A i j v ! i' ! j' = (if i' = i \<and> j' = j then v else A ! i' ! j')"
  by (auto simp add: set2_def shape2_def nth_list_update)

lemma set2_shape: "shape2 n m A \<Longrightarrow> shape2 n m (set2 A i j v)"
  by (cases "i < length A") (auto simp add: set2_def shape2_def nth_list_update)

lemma set3_nth:
  "shape3 n m k A \<Longrightarrow> i < n \<Longrightarrow> j < m \<Longrightarrow> l < k \<Longrightarrow> i' < n \<Longrightarrow> j' < m \<Longrightarrow> l' < k \<Longrightarrow>
   set3 A i j l v ! i' ! j' ! l' = (if i' = i \<and> j' = j \<and> l' = l then v else A ! i' ! j' ! l')"
  by (auto simp add: set3_def shape3_def nth_list_update set2_nth)

lemma set3_shape: "shape3 n m k A \<Longrightarrow> shape3 n m k (set3 A i j l v)"
  by (cases "i < length A") (auto simp add: set3_def shape3_def nth_list_update set2_shape)

lemma zeros2_shape: "shape2 n m (zeros2 n m)"
  by (simp add: shape2_def zeros2_def zeros1_def)

lemma zeros3_shape: "shape3 n m k (zeros3 n m k)"
  by (simp add: shape3_def zeros3_def zeros2_shape)

lemma zeros2_nth: "i < n \<Longrightarrow> j < m \<Longrightarrow> zeros2 n m ! i ! j = 0"
  by (simp add: zeros2_def zeros1_def)

lemma zeros3_nth: "i < n \<Longrightarrow> j < m \<Longrightarrow> l < k \<Longrightarrow> zeros3 n m k ! i ! j ! l = 0"
  by (simp add: zeros3_def zeros2_nth)

lemma ns_of_bound: "ns_of g s a d < M_g g + 1"
  by (simp add: ns_of_def)

lemma fst_kernel_body:
  "fst (kernel_body g a s d KR) =
     set3 (fst KR) s (ns_of g s a d) a (fst KR ! s ! ns_of g s a d ! a + pdem_g g ! d)"
  by (simp add: kernel_body_def ns_of_def Let_def)

lemma kernel_inner:
  assumes "n = M_g g + 1" and "s < n" and "a < n"
  shows "shape3 n n n (fst KR) \<Longrightarrow>
         shape3 n n n (fst (fold (\<lambda>d. kernel_body g a s d) ds KR))
         \<and> (\<forall>s' ns' a'. s' < n \<longrightarrow> ns' < n \<longrightarrow> a' < n \<longrightarrow>
               fst (fold (\<lambda>d. kernel_body g a s d) ds KR) ! s' ! ns' ! a' =
                 fst KR ! s' ! ns' ! a'
                 + (if s' = s \<and> a' = a
                    then sum_list (map (\<lambda>d. if ns_of g s a d = ns' then pdem_g g ! d else 0) ds)
                    else 0))"
proof (induction ds arbitrary: KR)
  case Nil
  then show ?case by simp
next
  case (Cons d ds)
  let ?KR1 = "kernel_body g a s d KR"
  have nsb: "ns_of g s a d < n" using assms(1) ns_of_bound by simp
  have sh1: "shape3 n n n (fst ?KR1)"
    using Cons.prems by (simp add: fst_kernel_body set3_shape)
  have ent1: "\<And>s' ns' a'. s' < n \<Longrightarrow> ns' < n \<Longrightarrow> a' < n \<Longrightarrow>
      fst ?KR1 ! s' ! ns' ! a' =
        fst KR ! s' ! ns' ! a'
        + (if s' = s \<and> a' = a \<and> ns_of g s a d = ns' then pdem_g g ! d else 0)"
    using Cons.prems assms(2,3) nsb
    by (auto simp add: fst_kernel_body set3_nth)
  from Cons.IH [OF sh1] have
    sh2: "shape3 n n n (fst (fold (\<lambda>d. kernel_body g a s d) ds ?KR1))" and
    ent2: "\<And>s' ns' a'. s' < n \<Longrightarrow> ns' < n \<Longrightarrow> a' < n \<Longrightarrow>
      fst (fold (\<lambda>d. kernel_body g a s d) ds ?KR1) ! s' ! ns' ! a' =
        fst ?KR1 ! s' ! ns' ! a'
        + (if s' = s \<and> a' = a
           then sum_list (map (\<lambda>d. if ns_of g s a d = ns' then pdem_g g ! d else 0) ds)
           else 0)"
    by auto
  show ?case
    using sh2 by (auto simp add: ent2 ent1)
qed

lemma sum_list_pick:
  fixes f :: "nat \<Rightarrow> real"
  shows "sum_list (map (\<lambda>s. if s' = s then f s else 0) [0..<n]) = (if s' < n then f s' else 0)"
  by (induction n) auto

lemma kernel_mid:
  assumes "n = M_g g + 1" and "a < n" and "\<forall>s\<in>set ss. s < n"
  shows "shape3 n n n (fst KR) \<Longrightarrow>
         shape3 n n n (fst (fold (\<lambda>s. fold (\<lambda>d. kernel_body g a s d) [0..<n]) ss KR))
         \<and> (\<forall>s' ns' a'. s' < n \<longrightarrow> ns' < n \<longrightarrow> a' < n \<longrightarrow>
               fst (fold (\<lambda>s. fold (\<lambda>d. kernel_body g a s d) [0..<n]) ss KR) ! s' ! ns' ! a' =
                 fst KR ! s' ! ns' ! a'
                 + (if a' = a
                    then sum_list (map (\<lambda>s. if s' = s then mass g s a ns' else 0) ss)
                    else 0))"
  using assms(3)
proof (induction ss arbitrary: KR)
  case Nil
  then show ?case by simp
next
  case (Cons s ss)
  let ?KR1 = "fold (\<lambda>d. kernel_body g a s d) [0..<n] KR"
  have s: "s < n" using Cons.prems by simp
  from kernel_inner [OF assms(1) s assms(2), of KR "[0..<n]"] Cons.prems have
    sh1: "shape3 n n n (fst ?KR1)" and
    ent1: "\<And>s' ns' a'. s' < n \<Longrightarrow> ns' < n \<Longrightarrow> a' < n \<Longrightarrow>
      fst ?KR1 ! s' ! ns' ! a' =
        fst KR ! s' ! ns' ! a' + (if s' = s \<and> a' = a then mass g s a ns' else 0)"
    by (auto simp add: mass_def assms(1))
  from Cons.IH [OF sh1] Cons.prems have
    sh2: "shape3 n n n (fst (fold (\<lambda>s. fold (\<lambda>d. kernel_body g a s d) [0..<n]) ss ?KR1))" and
    ent2: "\<And>s' ns' a'. s' < n \<Longrightarrow> ns' < n \<Longrightarrow> a' < n \<Longrightarrow>
      fst (fold (\<lambda>s. fold (\<lambda>d. kernel_body g a s d) [0..<n]) ss ?KR1) ! s' ! ns' ! a' =
        fst ?KR1 ! s' ! ns' ! a'
        + (if a' = a
           then sum_list (map (\<lambda>s. if s' = s then mass g s a ns' else 0) ss)
           else 0)"
    by auto
  show ?case
    using sh2 by (auto simp add: ent2 ent1)
qed

lemma kernel_outer:
  assumes "n = M_g g + 1" and "\<forall>a\<in>set as. a < n"
  shows "shape3 n n n (fst KR) \<Longrightarrow>
         shape3 n n n
           (fst (fold (\<lambda>a. fold (\<lambda>s. fold (\<lambda>d. kernel_body g a s d) [0..<n]) [0..<n]) as KR))
         \<and> (\<forall>s' ns' a'. s' < n \<longrightarrow> ns' < n \<longrightarrow> a' < n \<longrightarrow>
               fst (fold (\<lambda>a. fold (\<lambda>s. fold (\<lambda>d. kernel_body g a s d) [0..<n]) [0..<n]) as KR)
                 ! s' ! ns' ! a' =
                 fst KR ! s' ! ns' ! a'
                 + sum_list (map (\<lambda>a. if a' = a then mass g s' a ns' else 0) as))"
  using assms(2)
proof (induction as arbitrary: KR)
  case Nil
  then show ?case by simp
next
  case (Cons a as)
  let ?KR1 = "fold (\<lambda>s. fold (\<lambda>d. kernel_body g a s d) [0..<n]) [0..<n] KR"
  have a: "a < n" using Cons.prems by simp
  from kernel_mid [OF assms(1) a, of "[0..<n]" KR] Cons.prems have
    sh1: "shape3 n n n (fst ?KR1)" and
    ent1: "\<And>s' ns' a'. s' < n \<Longrightarrow> ns' < n \<Longrightarrow> a' < n \<Longrightarrow>
      fst ?KR1 ! s' ! ns' ! a' =
        fst KR ! s' ! ns' ! a' + (if a' = a then mass g s' a ns' else 0)"
    by (auto simp add: sum_list_pick)
  from Cons.IH [OF sh1] Cons.prems have
    sh2: "shape3 n n n
            (fst (fold (\<lambda>a. fold (\<lambda>s. fold (\<lambda>d. kernel_body g a s d) [0..<n]) [0..<n]) as ?KR1))" and
    ent2: "\<And>s' ns' a'. s' < n \<Longrightarrow> ns' < n \<Longrightarrow> a' < n \<Longrightarrow>
      fst (fold (\<lambda>a. fold (\<lambda>s. fold (\<lambda>d. kernel_body g a s d) [0..<n]) [0..<n]) as ?KR1)
        ! s' ! ns' ! a' =
        fst ?KR1 ! s' ! ns' ! a'
        + sum_list (map (\<lambda>a. if a' = a then mass g s' a ns' else 0) as)"
    by auto
  show ?case
    using sh2 by (auto simp add: ent2 ent1)
qed

lemma K_tab_shape: "shape3 (M_g g + 1) (M_g g + 1) (M_g g + 1) (K_tab g)"
  using kernel_outer [of "M_g g + 1" g "[0..<M_g g + 1]" "(zeros3 (M_g g + 1) (M_g g + 1) (M_g g + 1), zeros2 (M_g g + 1) (M_g g + 1))"]
  by (simp add: K_tab_def kernel_def Let_def zeros3_shape)

lemma K_tab_entry:
  assumes "s \<le> M_g g" and "ns \<le> M_g g" and "a \<le> M_g g"
  shows "K_tab g ! s ! ns ! a = mass g s a ns"
proof -
  let ?n = "M_g g + 1"
  have lt: "s < ?n" "ns < ?n" "a < ?n" using assms by simp_all
  from kernel_outer [of ?n g "[0..<?n]" "(zeros3 ?n ?n ?n, zeros2 ?n ?n)"]
  have "fst (kernel g) ! s ! ns ! a =
          zeros3 ?n ?n ?n ! s ! ns ! a
          + sum_list (map (\<lambda>a'. if a = a' then mass g s a' ns else 0) [0..<?n])"
    using lt by (simp add: kernel_def Let_def zeros3_shape)
  then show ?thesis
    using lt by (simp add: K_tab_def zeros3_nth sum_list_pick del: upt_Suc)
qed


lemma mass_row_sum:
  assumes "length (pdem_g g) = M_g g + 1"
  shows "sum_list (map (\<lambda>ns. mass g s a ns) [0..<M_g g + 1]) = sum_list (pdem_g g)"
proof -
  let ?n = "M_g g + 1"
  have "sum_list (map (\<lambda>ns. mass g s a ns) [0..<?n])
        = (\<Sum>ns\<in>{0..<?n}. \<Sum>d\<in>{0..<?n}. if ns_of g s a d = ns then pdem_g g ! d else 0)"
    by (simp add: mass_def interv_sum_list_conv_sum_set_nat del: upt_Suc)
  also have "\<dots> = (\<Sum>d\<in>{0..<?n}. \<Sum>ns\<in>{0..<?n}. if ns_of g s a d = ns then pdem_g g ! d else 0)"
    by (rule sum.swap)
  also have "\<dots> = (\<Sum>d\<in>{0..<?n}. pdem_g g ! d)"
  proof (rule sum.cong)
    fix d assume "d \<in> {0..<?n}"
    have "ns_of g s a d \<in> {0..<?n}" using ns_of_bound [of g s a d] by simp
    then show "(\<Sum>ns\<in>{0..<?n}. if ns_of g s a d = ns then pdem_g g ! d else 0) = pdem_g g ! d"
      by (simp add: sum.delta')
  qed simp
  also have "\<dots> = sum_list (map ((!) (pdem_g g)) [0..<length (pdem_g g)])"
    using assms by (simp add: interv_sum_list_conv_sum_set_nat del: upt_Suc)
  also have "\<dots> = sum_list (pdem_g g)"
    by (simp add: map_nth)
  finally show ?thesis .
qed

lemma K_row_sum:
  assumes "length (pdem_g g) = M_g g + 1" and "s \<le> M_g g" and "a \<le> M_g g"
  shows "sum_list (map (\<lambda>ns. K_tab g ! s ! ns ! a) [0..<M_g g + 1]) = sum_list (pdem_g g)"
proof -
  have "map (\<lambda>ns. K_tab g ! s ! ns ! a) [0..<M_g g + 1] = map (\<lambda>ns. mass g s a ns) [0..<M_g g + 1]"
  proof (rule map_cong [OF refl])
    fix ns assume "ns \<in> set [0..<M_g g + 1]"
    then have "ns \<le> M_g g" by auto
    then show "K_tab g ! s ! ns ! a = mass g s a ns"
      using assms(2,3) by (simp add: K_tab_entry)
  qed
  then show ?thesis
    by (simp only: mass_row_sum [OF assms(1)])
qed

text \<open>
  In exact arithmetic: when the demand array has length \<open>M + 1\<close> and sums to 1, then for every state \<open>s\<close> and
  action \<open>a\<close> in \<open>[0, M]\<close> the entries \<open>K[s, s', a]\<close> of the computed kernel, summed over
  \<open>s'\<close>, give 1.
\<close>

lemma K_rows_sum_to_one_exact:
  assumes "length (pdem_g g) = M_g g + 1" and "sum_list (pdem_g g) = 1"
    and "s \<le> M_g g" and "a \<le> M_g g"
  shows "sum_list (map (\<lambda>s'. K_tab g ! s ! s' ! a) [0..<M_g g + 1]) = 1"
  using K_row_sum [OF assms(1,3,4)] assms(2) by simp

lemma K_rows_sum_to_one_exact_example:
  "length (pdem_g small_globals) = M_g small_globals + 1
   \<and> sum_list (pdem_g small_globals) = 1
   \<and> K_tab small_globals ! 1 = [[3/4, 1/2, 1/2], [1/4, 1/4, 1/4], [0, 1/4, 1/4]]
   \<and> sum_list (map (\<lambda>s'. K_tab small_globals ! 1 ! s' ! 0) [0..<M_g small_globals + 1]) = 1"
proof -
  have l: "length (pdem_g small_globals) = M_g small_globals + 1"
    by (simp add: small_globals_def)
  have t: "sum_list (pdem_g small_globals) = 1"
    by (simp add: small_globals_def)
  have b: "1 \<le> M_g small_globals" "0 \<le> M_g small_globals"
    by (simp_all add: small_globals_def)
  have k: "K_tab small_globals ! 1 = [[3/4, 1/2, 1/2], [1/4, 1/4, 1/4], [0, 1/4, 1/4]]"
    by code_simp
  show ?thesis
    using l t k K_rows_sum_to_one_exact [OF l t b] by simp
qed

subsection \<open>Greedy improvement\<close>

lemma argmax_scan_spec:
  assumes "row = pre @ xs" and "i = length pre" and "best < i" and "bv = row ! best"
    and "\<forall>j<i. row ! j \<le> bv" and "\<forall>j<best. row ! j < bv"
  shows "argmax_scan xs i best bv < length row
         \<and> (\<forall>j<length row. row ! j \<le> row ! argmax_scan xs i best bv)
         \<and> (\<forall>j<argmax_scan xs i best bv. row ! j < row ! argmax_scan xs i best bv)"
  using assms
proof (induction xs arbitrary: pre i best bv)
  case Nil
  then show ?case by simp
next
  case (Cons x xs)
  have rowi: "row ! i = x" using Cons.prems(1,2) by simp
  have row': "row = (pre @ [x]) @ xs" using Cons.prems(1) by simp
  have len': "i + 1 = length (pre @ [x])" using Cons.prems(2) by simp
  show ?case
  proof (cases "x > bv")
    case True
    have a: "\<forall>j<i + 1. row ! j \<le> x"
    proof (intro allI impI)
      fix j assume "j < i + 1"
      then consider "j < i" | "j = i" by linarith
      then show "row ! j \<le> x"
      proof cases
        case 1
        then show ?thesis using Cons.prems(5) True by fastforce
      next
        case 2
        then show ?thesis using rowi by simp
      qed
    qed
    have b: "\<forall>j<i. row ! j < x"
      using Cons.prems(5) True by fastforce
    from Cons.IH [OF row' len', of i x] rowi a b
    show ?thesis using True by simp
  next
    case False
    have a: "\<forall>j<i + 1. row ! j \<le> bv"
    proof (intro allI impI)
      fix j assume "j < i + 1"
      then consider "j < i" | "j = i" by linarith
      then show "row ! j \<le> bv"
      proof cases
        case 1
        then show ?thesis using Cons.prems(5) by simp
      next
        case 2
        then show ?thesis using rowi False by simp
      qed
    qed
    have c: "best < i + 1" using Cons.prems(3) by simp
    from Cons.IH [OF row' len' c Cons.prems(4) a Cons.prems(6)]
    show ?thesis using False by simp
  qed
qed

lemma argmax_spec:
  assumes "xs \<noteq> []"
  shows "argmax xs < length xs
         \<and> (\<forall>j<length xs. xs ! j \<le> xs ! argmax xs)
         \<and> (\<forall>j<argmax xs. xs ! j < xs ! argmax xs)"
proof -
  obtain x xs' where xs: "xs = x # xs'" using assms by (cases xs) auto
  have e: "argmax xs = argmax_scan xs' 1 0 x" by (simp add: argmax_def xs)
  have "argmax_scan xs' 1 0 x < length xs
        \<and> (\<forall>j<length xs. xs ! j \<le> xs ! argmax_scan xs' 1 0 x)
        \<and> (\<forall>j<argmax_scan xs' 1 0 x. xs ! j < xs ! argmax_scan xs' 1 0 x)"
    by (rule argmax_scan_spec [where pre = "[x]"]) (simp_all add: xs)
  then show ?thesis unfolding e .
qed

lemma Q_row_fold:
  assumes "shape2 n m Q" and "s < n" and "\<forall>a\<in>set as. a < m"
  shows "shape2 n m (fold (\<lambda>a Q. set2 Q s a (f a)) as Q)
         \<and> (\<forall>s'<n. \<forall>a'<m. fold (\<lambda>a Q. set2 Q s a (f a)) as Q ! s' ! a' =
               (if s' = s \<and> a' \<in> set as then f a' else Q ! s' ! a'))"
  using assms
proof (induction as arbitrary: Q)
  case Nil
  then show ?case by simp
next
  case (Cons a as)
  let ?Q1 = "set2 Q s a (f a)"
  have sh1: "shape2 n m ?Q1" using Cons.prems(1) by (rule set2_shape)
  have a: "a < m" using Cons.prems(3) by simp
  have ent1: "\<And>s' a'. s' < n \<Longrightarrow> a' < m \<Longrightarrow>
      ?Q1 ! s' ! a' = (if s' = s \<and> a' = a then f a else Q ! s' ! a')"
    using set2_nth [OF Cons.prems(1) Cons.prems(2) a] by simp
  from Cons.IH [OF sh1 Cons.prems(2)] Cons.prems(3) have
    sh2: "shape2 n m (fold (\<lambda>a Q. set2 Q s a (f a)) as ?Q1)" and
    ent2: "\<And>s' a'. s' < n \<Longrightarrow> a' < m \<Longrightarrow>
      fold (\<lambda>a Q. set2 Q s a (f a)) as ?Q1 ! s' ! a' =
        (if s' = s \<and> a' \<in> set as then f a' else ?Q1 ! s' ! a')"
    by auto
  show ?case
    using sh2 by (auto simp add: ent2 ent1)
qed

lemma Q_row_filled:
  assumes "shape2 n n Q" and "s < n"
  shows "fold (\<lambda>a Q. set2 Q s a (f a)) [0..<n] Q ! s = map f [0..<n]"
proof (rule nth_equalityI)
  from Q_row_fold [OF assms, of "[0..<n]" f] have
    sh: "shape2 n n (fold (\<lambda>a Q. set2 Q s a (f a)) [0..<n] Q)" and
    ent: "\<And>a'. a' < n \<Longrightarrow> fold (\<lambda>a Q. set2 Q s a (f a)) [0..<n] Q ! s ! a' = f a'"
    using assms(2) by auto
  show "length (fold (\<lambda>a Q. set2 Q s a (f a)) [0..<n] Q ! s) = length (map f [0..<n])"
    using sh assms(2) by (simp add: shape2_def)
  fix i assume "i < length (fold (\<lambda>a Q. set2 Q s a (f a)) [0..<n] Q ! s)"
  then have "i < n" using sh assms(2) by (simp add: shape2_def)
  then show "fold (\<lambda>a Q. set2 Q s a (f a)) [0..<n] Q ! s ! i = map f [0..<n] ! i"
    using ent by (simp del: upt_Suc)
qed

lemma Improve_body_step:
  assumes "n = M_g g + 1" and "s < n" and "shape2 n n (snd (snd st))"
  shows "Improve_body g V s st =
           ((fst st)[s := argmax (Q_row g V s)],
            (fst (snd st))[s := Q_row g V s ! argmax (Q_row g V s)],
            fold (\<lambda>a Q. set2 Q s a (Q_entry g V s a)) [0..<n] (snd (snd st)))"
  using Q_row_filled [OF assms(3,2), of "Q_entry g V s"] assms(1)
  by (simp add: Improve_body_def Let_def Q_row_def)

lemma Improve_fold:
  assumes "n = M_g g + 1" and "\<forall>s\<in>set ss. s < n"
    and "length (fst st) = n" and "length (fst (snd st)) = n" and "shape2 n n (snd (snd st))"
  shows "length (fst (fold (Improve_body g V) ss st)) = n
         \<and> length (fst (snd (fold (Improve_body g V) ss st))) = n
         \<and> shape2 n n (snd (snd (fold (Improve_body g V) ss st)))
         \<and> (\<forall>s'<n. fst (fold (Improve_body g V) ss st) ! s' =
               (if s' \<in> set ss then argmax (Q_row g V s') else fst st ! s'))
         \<and> (\<forall>s'<n. fst (snd (fold (Improve_body g V) ss st)) ! s' =
               (if s' \<in> set ss then Q_row g V s' ! argmax (Q_row g V s')
                else fst (snd st) ! s'))"
  using assms(2-)
proof (induction ss arbitrary: st)
  case Nil
  then show ?case by simp
next
  case (Cons s ss)
  let ?st1 = "Improve_body g V s st"
  have s: "s < n" using Cons.prems(1) by simp
  note e = Improve_body_step [OF assms(1) s Cons.prems(4), of V]
  have l1: "length (fst ?st1) = n" "length (fst (snd ?st1)) = n"
    using Cons.prems(2,3) by (simp_all add: e)
  have sh1: "shape2 n n (snd (snd ?st1))"
    using Q_row_fold [OF Cons.prems(4) s, of "[0..<n]" "Q_entry g V s"] by (simp add: e)
  have p1: "\<And>s'. s' < n \<Longrightarrow> fst ?st1 ! s' = (if s' = s then argmax (Q_row g V s) else fst st ! s')"
    using Cons.prems(2) by (simp add: e nth_list_update)
  have v1: "\<And>s'. s' < n \<Longrightarrow> fst (snd ?st1) ! s' =
      (if s' = s then Q_row g V s ! argmax (Q_row g V s) else fst (snd st) ! s')"
    using Cons.prems(3) by (simp add: e nth_list_update)
  from Cons.IH [OF _ l1 sh1] Cons.prems(1) have
    r: "length (fst (fold (Improve_body g V) ss ?st1)) = n"
       "length (fst (snd (fold (Improve_body g V) ss ?st1))) = n"
       "shape2 n n (snd (snd (fold (Improve_body g V) ss ?st1)))" and
    p2: "\<And>s'. s' < n \<Longrightarrow> fst (fold (Improve_body g V) ss ?st1) ! s' =
           (if s' \<in> set ss then argmax (Q_row g V s') else fst ?st1 ! s')" and
    v2: "\<And>s'. s' < n \<Longrightarrow> fst (snd (fold (Improve_body g V) ss ?st1)) ! s' =
           (if s' \<in> set ss then Q_row g V s' ! argmax (Q_row g V s')
            else fst (snd ?st1) ! s')"
    by auto
  show ?case
    using r by (auto simp add: p2 v2 p1 v1)
qed

lemma Improve_result:
  assumes "M_g g + 1 \<le> length V"
  shows "\<exists>Pi newV. Improve g V = Inr (Pi, newV)
           \<and> length Pi = M_g g + 1 \<and> length newV = M_g g + 1
           \<and> (\<forall>s\<le>M_g g. Pi ! s = argmax (Q_row g V s)
                 \<and> newV ! s = Q_row g V s ! argmax (Q_row g V s))"
proof -
  let ?n = "M_g g + 1"
  let ?init = "(replicate ?n (0::nat), zeros1 ?n, zeros2 ?n ?n)"
  let ?st = "fold (Improve_body g V) [0..<?n] ?init"
  have e: "Improve g V = Inr (fst ?st, fst (snd ?st))"
    using assms by (simp add: Improve_def Let_def)
  have pre: "\<forall>s\<in>set [0..<?n]. s < ?n" "length (fst ?init) = ?n"
    "length (fst (snd ?init)) = ?n" "shape2 ?n ?n (snd (snd ?init))"
    by (auto simp add: zeros1_def zeros2_shape simp del: upt_Suc)
  note r = Improve_fold [OF refl pre, of V]
  have mem: "\<And>s'. s' < ?n \<Longrightarrow> s' \<in> set [0..<?n]" by auto
  have l: "length (fst ?st) = ?n" "length (fst (snd ?st)) = ?n"
    using r by blast+
  have p: "\<forall>s\<le>M_g g. fst ?st ! s = argmax (Q_row g V s)
                        \<and> fst (snd ?st) ! s = Q_row g V s ! argmax (Q_row g V s)"
  proof (intro allI impI)
    fix s assume "s \<le> M_g g"
    then have s: "s < ?n" by simp
    have "fst ?st ! s = (if s \<in> set [0..<?n] then argmax (Q_row g V s) else fst ?init ! s)"
      using r s by blast
    moreover have "fst (snd ?st) ! s =
        (if s \<in> set [0..<?n] then Q_row g V s ! argmax (Q_row g V s) else fst (snd ?init) ! s)"
      using r s by blast
    ultimately show "fst ?st ! s = argmax (Q_row g V s)
                     \<and> fst (snd ?st) ! s = Q_row g V s ! argmax (Q_row g V s)"
      using mem [OF s] by simp
  qed
  show ?thesis using e l p by blast
qed

lemma Q_row_argmax:
  assumes "s \<le> M_g g"
  shows "argmax (Q_row g V s) \<le> M_g g
         \<and> Q_row g V s ! argmax (Q_row g V s) = Q_entry g V s (argmax (Q_row g V s))
         \<and> (\<forall>a\<le>M_g g. Q_entry g V s a \<le> Q_entry g V s (argmax (Q_row g V s)))
         \<and> (\<forall>a<argmax (Q_row g V s). Q_entry g V s a < Q_entry g V s (argmax (Q_row g V s)))"
proof -
  let ?row = "Q_row g V s"
  have len: "length ?row = M_g g + 1" by (simp add: Q_row_def)
  then have ne: "?row \<noteq> []" by auto
  have nth: "\<And>a. a \<le> M_g g \<Longrightarrow> ?row ! a = Q_entry g V s a"
    unfolding Q_row_def using nth_map_upt [of _ "M_g g + 1" 0 "Q_entry g V s"] by simp
  from argmax_spec [OF ne] have
    b: "argmax ?row < length ?row" and
    mx: "\<forall>j<length ?row. ?row ! j \<le> ?row ! argmax ?row" and
    fs: "\<forall>j<argmax ?row. ?row ! j < ?row ! argmax ?row"
    by auto
  have b': "argmax ?row \<le> M_g g" using b len by simp
  have 1: "?row ! argmax ?row = Q_entry g V s (argmax ?row)" using nth b' by simp
  have 2: "\<forall>a\<le>M_g g. Q_entry g V s a \<le> Q_entry g V s (argmax ?row)"
    using mx len nth 1 by (metis less_Suc_eq_le Suc_eq_plus1)
  have 3: "\<forall>a<argmax ?row. Q_entry g V s a < Q_entry g V s (argmax ?row)"
  proof (intro allI impI)
    fix a assume a: "a < argmax ?row"
    then have "a \<le> M_g g" using b' by simp
    then show "Q_entry g V s a < Q_entry g V s (argmax ?row)"
      using fs a nth 1 by metis
  qed
  show ?thesis using b' 1 2 3 by blast
qed

text \<open>
  C4: for a value array \<open>V\<close> with (at least) \<open>M + 1\<close> entries, \<open>Improve\<close> returns \<open>Pi\<close> and
  \<open>newV\<close> of length \<open>M + 1\<close> such that, with
  \<open>Q[s,a] = avgR[s,a] + gamma * (sum over ns of K[s,ns,a] * V[ns])\<close>, every \<open>Pi[s]\<close> is an
  action in \<open>[0, M]\<close> that maximises \<open>Q[s, .]\<close>, every smaller action has a strictly smaller
  value (the lowest maximiser is taken), and \<open>newV[s] = Q[s, Pi[s]]\<close>.
\<close>

theorem Improve_greedy:
  assumes "M_g g + 1 \<le> length V"
  shows "\<exists>Pi newV. Improve g V = Inr (Pi, newV)
           \<and> length Pi = M_g g + 1 \<and> length newV = M_g g + 1
           \<and> (\<forall>s\<le>M_g g.
                 Pi ! s \<le> M_g g
                 \<and> (\<forall>a\<le>M_g g. Q_entry g V s a \<le> Q_entry g V s (Pi ! s))
                 \<and> (\<forall>a<Pi ! s. Q_entry g V s a < Q_entry g V s (Pi ! s))
                 \<and> newV ! s = Q_entry g V s (Pi ! s))"
proof -
  from Improve_result [OF assms] obtain Pi newV where
    r: "Improve g V = Inr (Pi, newV)" "length Pi = M_g g + 1" "length newV = M_g g + 1"
       "\<forall>s\<le>M_g g. Pi ! s = argmax (Q_row g V s)
                    \<and> newV ! s = Q_row g V s ! argmax (Q_row g V s)"
    by blast
  have "\<forall>s\<le>M_g g.
          Pi ! s \<le> M_g g
          \<and> (\<forall>a\<le>M_g g. Q_entry g V s a \<le> Q_entry g V s (Pi ! s))
          \<and> (\<forall>a<Pi ! s. Q_entry g V s a < Q_entry g V s (Pi ! s))
          \<and> newV ! s = Q_entry g V s (Pi ! s)"
  proof (intro allI impI)
    fix s assume s: "s \<le> M_g g"
    from r(4) s have p: "Pi ! s = argmax (Q_row g V s)"
      and v: "newV ! s = Q_row g V s ! argmax (Q_row g V s)" by auto
    show "Pi ! s \<le> M_g g
          \<and> (\<forall>a\<le>M_g g. Q_entry g V s a \<le> Q_entry g V s (Pi ! s))
          \<and> (\<forall>a<Pi ! s. Q_entry g V s a < Q_entry g V s (Pi ! s))
          \<and> newV ! s = Q_entry g V s (Pi ! s)"
      unfolding p v using Q_row_argmax [OF s, of V] by blast
  qed
  then show ?thesis using r(1,2,3) by blast
qed

theorem Improve_greedy_witness:
  "M_g small_globals + 1 \<le> length [1, 2, 4 :: real]
   \<and> Improve small_globals [1, 2, 4] = Inr ([2, 1, 0], [189/100, 209/100, 259/100])
   \<and> map (\<lambda>s. map (Q_entry small_globals [1, 2, 4] s) [0, 1, 2]) [0, 1, 2] =
       [[97/100, 93/80, 189/100], [133/80, 209/100, 159/100], [259/100, 179/100, 129/100]]"
proof -
  have l: "M_g small_globals + 1 \<le> length [1, 2, 4 :: real]"
    by (simp add: small_globals_def)
  have e: "Improve small_globals [1, 2, 4] = Inr ([2, 1, 0], [189/100, 209/100, 259/100])"
    by code_simp
  have q: "map (\<lambda>s. map (Q_entry small_globals [1, 2, 4] s) [0, 1, 2]) [0, 1, 2] =
       [[97/100, 93/80, 189/100], [133/80, 209/100, 159/100], [259/100, 179/100, 129/100]]"
    by code_simp
  show ?thesis
    using l e q Improve_greedy [OF l] by simp
qed

subsection \<open>Simulated trajectories\<close>








subsection \<open>The value update as a contraction\<close>















subsection \<open>Checkpoints of Q-learning\<close>

lemma upt13: "[Suc 0..<3] = [1, 2]" by (simp add: upt_rec)

lemma SimuDemand_small_any:
  "9/10 = rng 0 \<Longrightarrow> SimuDemand [1/4, 1/4, 1/2] rng = Inr (2, (\<lambda>n. rng (Suc n)))"
  by (simp add: SimuDemand_def cumsum_def rd_random_def SimuDemand_loop.simps)

lemma step1: "QLearning_update small_globals (3/10) ql0 = Inr ql1"
  unfolding QLearning_update_def ql0_def ql1_def
  apply (simp add: np_randint_def rd_random_def alt_draws_def succ_draws_def np_index_def
      StoreManagement_def small_globals_def)
  apply (simp add: step_def SimuDemand_small_any nextreward_def nextstate_def)
  apply (simp add: zeros2_def zeros1_def set2_def max_row_def argmax_def numeral_3_eq_3 Let_def np_index_def small_globals_def)
  done

lemma step2: "QLearning_update small_globals (3/10) ql1 = Inr ql2"
  unfolding QLearning_update_def ql1_def ql2_def
  apply (simp add: np_randint_def rd_random_def alt_draws_def succ_draws_def np_index_def
      StoreManagement_def small_globals_def)
  apply (simp add: step_def SimuDemand_small_any nextreward_def nextstate_def)
  apply (simp add: set2_def max_row_def argmax_def Let_def np_index_def small_globals_def)
  done

lemma greedy2: "map (\<lambda>s. argmax (Q_arr ql2 ! s)) [0..<Suc (Suc (Suc 0))] = [0, 2, 0]"
  by (simp add: ql2_def argmax_def)

lemma QLearning_run_small: "QLearning_run small_globals (zeros2 3 3) alt_draws succ_draws [0, 3]
   = Inr (ql2, Some [0, 2, 0], [(3, [0, 2, 0])])"
proof -
  have s: "np_randint (M_g small_globals + 1) succ_draws = (1, (\<lambda>k. succ_draws (Suc k)))"
    by (simp add: np_randint_def succ_draws_def small_globals_def)
  have m: "zeros2 (M_g small_globals + 1) (M_g small_globals + 1) = zeros2 3 3"
    by (simp add: small_globals_def)
  have ks: "[0..<length [0, 3 :: nat] - 1] = [0]"
    by simp
  have init: "\<lparr> Q_arr = zeros2 3 3, N_arr = zeros2 3 3,
                env_obj = StoreManagement small_globals (int 1),
                rd_gen = alt_draws, np_gen = (\<lambda>k. succ_draws (Suc k)) \<rparr> = ql0"
    by (simp add: ql0_def)
  have o: "QLearning_outer small_globals (3/10) [0, 3] [0] (ql0, None, [])
             = Inr (ql2, Some [0, 2, 0], [(3, [0, 2, 0])])"
  proof -
    have i: "QLearning_inner small_globals (3/10) [Suc 0..<3] ql0 = Inr ql2"
      by (simp add: upt13 step1 step2)
    have Mg: "M_g small_globals + 1 = Suc (Suc (Suc 0))"
      by (simp add: small_globals_def)
    show ?thesis
      unfolding QLearning_outer.simps Let_def Mg
      by (simp add: i greedy2 del: upt_Suc)
  qed
  show ?thesis
    unfolding QLearning_run_def Let_def s m ks prod.case init
    by (rule o)
qed


text \<open>
  C8, at the checkpoints \<open>[0, 3]\<close>: the run prints one line, "After T= 3 iterations", with
  the greedy policy of the table at that moment; the inner loop has run for \<open>t = 1, 2\<close> only,
  so the visit table \<open>N\<close> counts two updates, not three.
\<close>

theorem QLearning_checkpoint_updates:
  "QLearning_run small_globals (zeros2 3 3) alt_draws succ_draws [0, 3]
     = Inr (ql2, Some [0, 2, 0], [(3, [0, 2, 0])])
   \<and> QLearning small_globals (zeros2 3 3) alt_draws succ_draws [0, 3]
     = Inr ([0, 2, 0], [[0, 0, 0], [0, 0, (2/5) / sqrt 2], [0, 0, 0]])
   \<and> N_arr ql2 = [[1, 0, 0], [0, 0, 1], [0, 0, 0]]
   \<and> sum_list (map sum_list (N_arr ql2)) = 2"
  by (simp add: QLearning_def QLearning_run_small) (simp add: ql2_def)

subsection \<open>The sampler in float64\<close>

lemma cumsum_f64_dyadic: "cumsum_f64 dyadic_pdem = replicate 9 (3/4) @ [1 - 1 / 2 ^ 52]"
  by code_simp

lemma dyadic_pdem_floats: "map f64 dyadic_pdem = dyadic_pdem"
  by code_simp

lemma draw_float: "f64 (1 - 1 / 2 ^ 53) = 1 - 1 / 2 ^ 53"
  by code_simp

lemma dyadic_pdem_sum: "sum_list dyadic_pdem = 1"
  by code_simp

lemma dyadic_scan:
  "SimuDemand_loop (replicate 9 (3/4) @ [1 - 1 / 2 ^ 52]) (1 - 1 / 2 ^ 53) 0 = Inl IndexError"
  by code_simp

text \<open>
  C7, in float64: the ten entries of \<open>dyadic_pdem\<close> are floats, none is negative and their
  sum is exactly 1, but each of the eight small entries is lost when it is added to \<open>3/4\<close>,
  so the running sums end at \<open>1 - 2 ^ - 52\<close>. The draw \<open>1 - 2 ^ - 53\<close>, a float in
  \<open>[0, 1)\<close>, is above all of them: the scan reads past the end and raises \<open>IndexError\<close>.
\<close>

theorem SimuDemand_f64_overrun:
  "length dyadic_pdem = 9 + 1
   \<and> map f64 dyadic_pdem = dyadic_pdem
   \<and> sum_list dyadic_pdem = 1
   \<and> (0::real) \<le> 1 / 2 ^ 55 \<and> (0::real) \<le> 1/4 - 1 / 2 ^ 52
   \<and> f64 (1 - 1 / 2 ^ 53) = 1 - 1 / 2 ^ 53
   \<and> (0::real) \<le> 1 - 1 / 2 ^ 53 \<and> (1::real) - 1 / 2 ^ 53 < 1
   \<and> cumsum_f64 dyadic_pdem = replicate 9 (3/4) @ [1 - 1 / 2 ^ 52]
   \<and> SimuDemand_f64 dyadic_pdem (const_draws (1 - 1 / 2 ^ 53)) = Inl IndexError"
proof -
  have l: "length dyadic_pdem = 9 + 1" by (simp add: dyadic_pdem_def)
  have r: "SimuDemand_f64 dyadic_pdem (const_draws (1 - 1 / 2 ^ 53)) = Inl IndexError"
    unfolding SimuDemand_f64_def cumsum_f64_dyadic Let_def rd_random_def const_draws_def
    by (simp only: prod.case dyadic_scan sum.case)
  show ?thesis
    using l r dyadic_pdem_floats dyadic_pdem_sum draw_float cumsum_f64_dyadic by simp
qed


end
